theory Spec2Isabelle
  imports Complex_Main "HOL-Library.Word" "HOL-Library.Multiset"
begin

unbundle bit_operations_syntax

section \<open>The PCG32 generator of pcg32.h\<close>

text \<open>
  \<^verbatim>\<open>uint64_t\<close> and \<^verbatim>\<open>uint32_t\<close> are words, whose \<open>+\<close>, \<open>*\<close> and unary \<open>-\<close> wrap around.
  An \<^verbatim>\<open>int64_t\<close> is the same 64 bits read by \<open>sint\<close>, so the cast \<^verbatim>\<open>(uint64_t) delta\<close>
  of \<^verbatim>\<open>advance\<close> leaves the word as it is.
\<close>

type_synonym u32 = "32 word"
type_synonym u64 = "64 word"
type_synonym i64 = "64 word"

text \<open>The two fields of \<^verbatim>\<open>struct pcg32\<close>.\<close>

record pcg32 =
  state :: u64
  inc :: u64

text \<open>The constructor \<^verbatim>\<open>pcg32(state, inc)\<close> stores its arguments; the defaults are below.\<close>

definition pcg32_init :: "u64 \<Rightarrow> u64 \<Rightarrow> pcg32" where
  "pcg32_init s i = \<lparr>state = s, inc = i\<rparr>"

definition pcg32_default :: pcg32 where
  "pcg32_default = pcg32_init 0x853c49e6748fea9b 0xda3e39cb94b95bdb"

subsection \<open>\<^verbatim>\<open>nextUInt()\<close>\<close>

text \<open>
  The method returns the output and mutates \<^verbatim>\<open>state\<close>; the model returns the pair of the
  output and the generator after the call.
\<close>

definition nextUInt :: "pcg32 \<Rightarrow> u32 \<times> pcg32" where
  "nextUInt g =
     (let oldstate = state g;
          g' = g\<lparr>state := oldstate * 6364136223846793005 + inc g\<rparr>;
          xorshifted = (ucast (drop_bit 27 (drop_bit 18 oldstate XOR oldstate)) :: u32);
          rot = (ucast (drop_bit 59 oldstate) :: u32)
      in (drop_bit (unat rot) xorshifted OR push_bit (unat ((- rot) AND 31)) xorshifted, g'))"

subsection \<open>\<^verbatim>\<open>seed(initstate, initseq)\<close>\<close>

definition seed :: "u64 \<Rightarrow> u64 \<Rightarrow> pcg32 \<Rightarrow> pcg32" where
  "seed initstate initseq g =
     (let g1 = g\<lparr>state := 0\<rparr>;
          g2 = g1\<lparr>inc := push_bit 1 initseq OR 1\<rparr>;
          g3 = snd (nextUInt g2);
          g4 = g3\<lparr>state := state g3 + initstate\<rparr>
      in snd (nextUInt g4))"

subsection \<open>\<^verbatim>\<open>nextUInt(bound)\<close>\<close>

text \<open>
  The unsigned \<^verbatim>\<open>%\<close> of C++ has no value for a zero divisor: the division traps. The
  model makes that outcome a value of its own, so that a run of the code is either a
  fault or a result.
\<close>

datatype fault = DivisionByZero

definition umod32 :: "u32 \<Rightarrow> u32 \<Rightarrow> fault + u32" where
  "umod32 a b = (if b = 0 then Inl DivisionByZero else Inr (a mod b))"

text \<open>
  The loop \<^verbatim>\<open>for (;;)\<close> has no bound on its iterations: \<open>None\<close> is the run that never
  leaves it.
\<close>

partial_function (option) nextUInt_loop ::
  "u32 \<Rightarrow> u32 \<Rightarrow> pcg32 \<Rightarrow> (fault + u32 \<times> pcg32) option" where
  "nextUInt_loop bound threshold g =
     (case nextUInt g of (r, g') \<Rightarrow>
        if r \<ge> threshold
        then (case umod32 r bound of Inl e \<Rightarrow> Some (Inl e) | Inr v \<Rightarrow> Some (Inr (v, g')))
        else nextUInt_loop bound threshold g')"

declare nextUInt_loop.simps [code]

definition nextUInt_bounded :: "u32 \<Rightarrow> pcg32 \<Rightarrow> (fault + u32 \<times> pcg32) option" where
  "nextUInt_bounded bound g =
     (case umod32 (- bound) bound of
        Inl e \<Rightarrow> Some (Inl e)
      | Inr threshold \<Rightarrow> nextUInt_loop bound threshold g)"

subsection \<open>\<^verbatim>\<open>nextFloat()\<close> and \<^verbatim>\<open>nextDouble()\<close>\<close>

text \<open>
  A finite binary floating-point number is a rational, and the model computes with the
  exact values. The cast of an unsigned integer to a format with a significand of \<open>p\<close>
  bits rounds to the nearest representable value, ties to the even significand (the
  default rounding of IEEE 754): \<open>p = 24\<close> for \<^verbatim>\<open>float\<close>, \<open>p = 53\<close> for \<^verbatim>\<open>double\<close>.
  \<^verbatim>\<open>std::ldexp(x, e)\<close> multiplies by a power of two, which is exact as long as the
  exponent stays in range, as it does for the values met here (at least \<open>2 ^ -32\<close> when
  not zero, at most 1).
\<close>

fun bit_length :: "nat \<Rightarrow> nat" where
  "bit_length n = (if n = 0 then 0 else Suc (bit_length (n div 2)))"

declare bit_length.simps [simp del]

definition round_to_prec :: "nat \<Rightarrow> nat \<Rightarrow> nat" where
  "round_to_prec p n =
     (if bit_length n \<le> p then n
      else let e = bit_length n - p;
               q = n div 2 ^ e;
               r = n mod 2 ^ e;
               half = 2 ^ (e - 1)
           in (if r > half \<or> (r = half \<and> odd q) then q + 1 else q) * 2 ^ e)"

definition float_of_u32 :: "u32 \<Rightarrow> rat" where
  "float_of_u32 r = of_nat (round_to_prec 24 (unat r))"

definition double_of_u32 :: "u32 \<Rightarrow> rat" where
  "double_of_u32 r = of_nat (round_to_prec 53 (unat r))"

definition ldexp :: "rat \<Rightarrow> int \<Rightarrow> rat" where
  "ldexp x e = (if e \<ge> 0 then x * 2 ^ nat e else x / 2 ^ nat (- e))"

definition nextFloat :: "pcg32 \<Rightarrow> rat \<times> pcg32" where
  "nextFloat g = (case nextUInt g of (r, g') \<Rightarrow> (ldexp (float_of_u32 r) (- 32), g'))"

definition nextDouble :: "pcg32 \<Rightarrow> rat \<times> pcg32" where
  "nextDouble g = (case nextUInt g of (r, g') \<Rightarrow> (ldexp (double_of_u32 r) (- 32), g'))"

subsection \<open>\<^verbatim>\<open>advance(delta)\<close>\<close>

function pcg_advance_loop :: "u64 \<Rightarrow> u64 \<Rightarrow> u64 \<Rightarrow> u64 \<Rightarrow> u64 \<Rightarrow> u64 \<times> u64" where
  "pcg_advance_loop delta cur_mult cur_plus acc_mult acc_plus =
     (if delta > 0
      then (let (acc_mult', acc_plus') =
                  (if delta AND 1 \<noteq> 0
                   then (acc_mult * cur_mult, acc_plus * cur_mult + cur_plus)
                   else (acc_mult, acc_plus))
            in pcg_advance_loop (delta div 2) (cur_mult * cur_mult) ((cur_mult + 1) * cur_plus)
                 acc_mult' acc_plus')
      else (acc_mult, acc_plus))"
  by pat_completeness auto
termination
  apply (relation "measure (\<lambda>(delta, _). unat delta)")
   apply simp
  apply (simp add: unat_div word_greater_zero_iff unat_gt_0)
  done

declare pcg_advance_loop.simps [simp del]

definition pcg_advance_lcg_64 :: "u64 \<Rightarrow> u64 \<Rightarrow> u64 \<Rightarrow> u64 \<Rightarrow> u64" where
  "pcg_advance_lcg_64 st delta cur_mult cur_plus =
     (let (acc_mult, acc_plus) = pcg_advance_loop delta cur_mult cur_plus 1 0
      in acc_mult * st + acc_plus)"

definition advance :: "i64 \<Rightarrow> pcg32 \<Rightarrow> pcg32" where
  "advance delta g =
     g\<lparr>state := pcg_advance_lcg_64 (state g) delta 6364136223846793005 (inc g)\<rparr>"

subsection \<open>\<^verbatim>\<open>shuffle(begin, end)\<close>\<close>

text \<open>
  The container is a list, and an iterator into it is what the iterator of a
  \<^verbatim>\<open>std::vector\<close> is: a pointer, kept here as its 64-bit address counted in elements.
  \<^verbatim>\<open>begin_it\<close> is the address of the first element and \<^verbatim>\<open>end\<close> is
  \<open>begin_it + length\<close>; the iterator \<^verbatim>\<open>it\<close> points to the element of index
  \<open>it - begin_it\<close>. \<^verbatim>\<open>end - 1\<close>, \<^verbatim>\<open>--it\<close> and \<^verbatim>\<open>it - begin\<close> are arithmetic on addresses,
  \<^verbatim>\<open>it > begin\<close> compares addresses, and the cast \<^verbatim>\<open>(uint32_t) (it - begin + 1)\<close> keeps
  the low 32 bits. \<^verbatim>\<open>std::iter_swap\<close> exchanges the two elements pointed to.

  On an empty range \<^verbatim>\<open>end - 1\<close> lies before \<^verbatim>\<open>begin\<close>, which the language leaves
  undefined. The addresses say what the compiled code does: the iterators of a
  default-constructed vector are null, \<^verbatim>\<open>end - 1\<close> wraps around to the highest address,
  the loop is entered and \<^verbatim>\<open>it - begin + 1\<close> is 0.
\<close>

definition iter_swap :: "nat \<Rightarrow> nat \<Rightarrow> 'a list \<Rightarrow> 'a list" where
  "iter_swap i j xs = xs[i := xs ! j, j := xs ! i]"

function shuffle_loop ::
  "u64 \<Rightarrow> u64 \<Rightarrow> 'a list \<Rightarrow> pcg32 \<Rightarrow> (fault + 'a list \<times> pcg32) option" where
  "shuffle_loop begin_it it xs g =
     (if it > begin_it
      then (case nextUInt_bounded (ucast (it - begin_it + 1)) g of
              None \<Rightarrow> None
            | Some (Inl e) \<Rightarrow> Some (Inl e)
            | Some (Inr (j, g')) \<Rightarrow>
                shuffle_loop begin_it (it - 1)
                  (iter_swap (unat (it - begin_it)) (unat j) xs) g')
      else Some (Inr (xs, g)))"
  by pat_completeness auto
termination
proof (relation "measure (\<lambda>(begin_it, it, _). unat it)")
  show "wf (measure (\<lambda>(begin_it, it, _). unat it))" by simp
next
  fix begin_it it :: u64 and xs :: "'a list" and g :: pcg32
    and x2 :: "fault + u32 \<times> pcg32" and b :: "u32 \<times> pcg32" and x :: u32 and y :: pcg32
  assume "begin_it < it"
  then have "it \<noteq> 0" by auto
  then have "unat (it - 1) < unat it"
    by (simp add: unat_minus_one unat_gt_0)
  then show "((begin_it, it - 1, iter_swap (unat (it - begin_it)) (unat x) xs, y),
      (begin_it, it, xs, g)) \<in> measure (\<lambda>(begin_it, it, _). unat it)"
    by simp
qed

declare shuffle_loop.simps [simp del]

definition shuffle ::
  "u64 \<Rightarrow> 'a list \<Rightarrow> pcg32 \<Rightarrow> (fault + 'a list \<times> pcg32) option" where
  "shuffle begin_it xs g =
     shuffle_loop begin_it (begin_it + of_nat (length xs) - 1) xs g"

subsection \<open>Notions used to state the properties\<close>

text \<open>
  The generator after \<open>k\<close> calls of \<^verbatim>\<open>nextUInt\<close> whose outputs are thrown away, and the
  output of the call that follows them.
\<close>

definition after_draws :: "nat \<Rightarrow> pcg32 \<Rightarrow> pcg32" where
  "after_draws k g = ((\<lambda>h. snd (nextUInt h)) ^^ k) g"

definition draw :: "nat \<Rightarrow> pcg32 \<Rightarrow> u32" where
  "draw k g = fst (nextUInt (after_draws k g))"

text \<open>
  One step of a linear congruential generator with multiplier \<open>m\<close> and increment \<open>p\<close>,
  and the pair of multiplier and increment of two such steps in a row.
\<close>

definition lcg :: "u64 \<Rightarrow> u64 \<Rightarrow> u64 \<Rightarrow> u64" where
  "lcg m p s = s * m + p"

definition lcg_twice :: "u64 \<times> u64 \<Rightarrow> u64 \<times> u64" where
  "lcg_twice mp = (fst mp * fst mp, (fst mp + 1) * snd mp)"


section \<open>The raw draw and seeding\<close>

lemma rot_amount_all:
  "\<forall>n \<in> set [0..<32]. unat ((- (of_nat n :: u32)) AND 31) = (32 - n) mod 32"
  by code_simp

lemma rot_amount: "n < 32 \<Longrightarrow> unat ((- (of_nat n :: u32)) AND 31) = (32 - n) mod 32"
  using rot_amount_all by simp

lemma rotr_as_shifts:
  fixes x :: u32
  assumes "n < 32"
  shows "drop_bit n x OR push_bit ((32 - n) mod 32) x = word_rotr n x"
proof (cases "n = 0")
  case True
  then show ?thesis by (intro bit_word_eqI) (simp add: bit_simps)
next
  case False
  show ?thesis
  proof (rule bit_word_eqI)
    fix k assume "k < LENGTH(32)"
    then have k: "k < 32" by simp
    show "bit (drop_bit n x OR push_bit ((32 - n) mod 32) x) k \<longleftrightarrow> bit (word_rotr n x) k"
    proof (cases "k + n < 32")
      case True
      with k assms False show ?thesis by (auto simp add: bit_simps add.commute)
    next
      case False
      with k assms have "(k + n) mod 32 = k + n - 32" by (simp add: le_mod_geq)
      with k assms False \<open>n \<noteq> 0\<close> show ?thesis
        by (auto simp add: bit_simps add.commute dest: bit_imp_le_length)
    qed
  qed
qed

lemma rot_lt_32: "unat (ucast (drop_bit 59 (s :: u64)) :: u32) < 32"
proof -
  have "unat (drop_bit 59 s) < 32"
  proof -
    have "unat s < 2 ^ LENGTH(64)" by (rule unsigned_less)
    then show ?thesis by (simp add: drop_bit_eq_div unat_div less_mult_imp_div_less)
  qed
  moreover have "unat (ucast (drop_bit 59 s) :: u32) \<le> unat (drop_bit 59 s)"
    by (simp add: unsigned_ucast_eq)
  ultimately show ?thesis by simp
qed

lemma odd_unat_iff: "odd (unat (w :: 'a::len word)) \<longleftrightarrow> bit w 0"
proof -
  have "odd (unat w) \<longleftrightarrow> bit (unat w) 0" by (simp add: bit_0)
  also have "\<dots> \<longleftrightarrow> bit w 0" by (simp add: bit_unsigned_iff)
  finally show ?thesis .
qed

text \<open>
  C1. A call of \<^verbatim>\<open>nextUInt\<close> replaces the state by
  \<open>old_state * 6364136223846793005 + inc\<close> modulo \<open>2 ^ 64\<close> and returns the 32-bit value
  \<open>xorshifted\<close> rotated to the right by \<open>rot\<close> bits, which is what
  \<open>(xorshifted >> rot) | (xorshifted << ((- rot) & 31))\<close> computes, where
  \<open>xorshifted = uint32 (((old_state >> 18) ^ old_state) >> 27)\<close> and
  \<open>rot = uint32 (old_state >> 59)\<close>; both are functions of the state before the call.
\<close>

theorem nextUInt_step:
  "(let old_state = state g;
        xorshifted = (ucast (drop_bit 27 (drop_bit 18 old_state XOR old_state)) :: u32);
        rot = (ucast (drop_bit 59 old_state) :: u32)
    in nextUInt g = (word_rotr (unat rot) xorshifted,
                     g\<lparr>state := old_state * 6364136223846793005 + inc g\<rparr>)
     \<and> unat (state (snd (nextUInt g)))
         = (unat old_state * 6364136223846793005 + unat (inc g)) mod 2 ^ 64
     \<and> word_rotr (unat rot) xorshifted
         = drop_bit (unat rot) xorshifted OR push_bit (unat ((- rot) AND 31)) xorshifted
     \<and> unat rot < 32)"
proof -
  define rot :: u32 where "rot = ucast (drop_bit 59 (state g))"
  have lt: "unat rot < 32" unfolding rot_def by (rule rot_lt_32)
  have "unat ((- rot) AND 31) = (32 - unat rot) mod 32"
    using rot_amount [OF lt] by simp
  then have rotr: "drop_bit (unat rot) x OR push_bit (unat ((- rot) AND 31)) x
      = word_rotr (unat rot) x" for x :: u32
    using rotr_as_shifts [OF lt] by simp
  have st: "unat (state g * 6364136223846793005 + inc g)
      = (unat (state g) * 6364136223846793005 + unat (inc g)) mod 2 ^ 64"
    by (simp add: unat_word_ariths mod_simps)
  show ?thesis
    using lt rotr st by (simp add: nextUInt_def Let_def rot_def)
qed

text \<open>
  The first outputs after \<^verbatim>\<open>seed(42, 54)\<close> are those of the reference implementation of
  PCG32.
\<close>

lemma known_answer:
  "(let g0 = seed 42 54 pcg32_default; g1 = snd (nextUInt g0); g2 = snd (nextUInt g1)
    in [fst (nextUInt g0), fst (nextUInt g1), fst (nextUInt g2)])
   = [0xa15c02b7, 0x7b47f409, 0xba1d3330]"
  by (simp add: seed_def nextUInt_def Let_def pcg32_default_def pcg32_init_def)

text \<open>
  C4. Whatever the generator held before, \<^verbatim>\<open>seed(initstate, initseq)\<close> leaves it as:
  state 0, increment \<open>(initseq << 1) | 1\<close>, one step of \<^verbatim>\<open>nextUInt\<close>, \<open>initstate\<close> added to
  the state, one more step. The increment after seeding is \<open>(initseq << 1) | 1\<close>, which
  is odd.
\<close>

theorem seed_result:
  "seed initstate initseq g =
     \<lparr>state = ((push_bit 1 initseq OR 1) + initstate) * 6364136223846793005
               + (push_bit 1 initseq OR 1),
      inc = push_bit 1 initseq OR 1\<rparr>
   \<and> seed initstate initseq g =
       snd (nextUInt ((snd (nextUInt (g\<lparr>state := 0, inc := push_bit 1 initseq OR 1\<rparr>)))
         \<lparr>state := state (snd (nextUInt (g\<lparr>state := 0, inc := push_bit 1 initseq OR 1\<rparr>)))
                     + initstate\<rparr>))
   \<and> inc (seed initstate initseq g) OR 1 = inc (seed initstate initseq g)
   \<and> odd (unat (inc (seed initstate initseq g)))"
proof -
  let ?i = "push_bit 1 initseq OR 1 :: u64"
  have inc: "inc (seed initstate initseq g) = ?i"
    by (simp add: seed_def nextUInt_def Let_def)
  have "seed initstate initseq g =
      \<lparr>state = (?i + initstate) * 6364136223846793005 + ?i, inc = ?i\<rparr>"
    by (cases g) (simp add: seed_def nextUInt_def Let_def)
  moreover have "seed initstate initseq g =
      snd (nextUInt ((snd (nextUInt (g\<lparr>state := 0, inc := ?i\<rparr>)))
        \<lparr>state := state (snd (nextUInt (g\<lparr>state := 0, inc := ?i\<rparr>))) + initstate\<rparr>))"
    by (simp add: seed_def Let_def)
  moreover have "inc (seed initstate initseq g) OR 1 = inc (seed initstate initseq g)"
    unfolding inc by (simp add: or.assoc)
  moreover have "odd (unat (inc (seed initstate initseq g)))"
    unfolding inc odd_unat_iff by (simp add: bit_or_iff)
  ultimately show ?thesis by blast
qed

section \<open>The bounded draw\<close>

lemma after_draws_0 [simp]: "after_draws 0 g = g"
  by (simp add: after_draws_def)

lemma after_draws_Suc: "after_draws (Suc k) g = after_draws k (snd (nextUInt g))"
  by (simp add: after_draws_def funpow_Suc_right del: funpow.simps)

lemma after_draws_Suc': "after_draws (Suc k) g = snd (nextUInt (after_draws k g))"
  by (simp add: after_draws_def)

lemma draw_0 [simp]: "draw 0 g = fst (nextUInt g)"
  by (simp add: draw_def)

lemma draw_Suc: "draw (Suc k) g = draw k (snd (nextUInt g))"
  by (simp add: draw_def after_draws_Suc)


lemma unat_neg_u32:
  assumes "bound \<noteq> (0 :: u32)"
  shows "unat (- bound) = 2 ^ 32 - unat bound"
proof -
  have "0 < unat bound" using assms by (simp add: unat_gt_0)
  then have "unat (0 - bound) = 2 ^ 32 - unat bound"
    using unat_sub_if_size [of 0 bound] by (simp add: word_size)
  then show ?thesis by simp
qed

lemma threshold_nat:
  assumes "bound \<noteq> (0 :: u32)"
  shows "unat ((- bound) mod bound) = 2 ^ 32 mod unat bound"
proof -
  have pos: "0 < unat bound" using assms by (simp add: unat_gt_0)
  have le: "unat bound \<le> 2 ^ 32"
    using unsigned_less [of bound, where 'a = nat] by simp
  have "unat ((- bound) mod bound) = (2 ^ 32 - unat bound) mod unat bound"
    using assms by (simp add: unat_mod unat_neg_u32)
  also have "\<dots> = 2 ^ 32 mod unat bound"
    using le by (simp add: le_mod_geq [symmetric])
  finally show ?thesis .
qed


lemma inc_nextUInt: "inc (snd (nextUInt g)) = inc g"
  by (simp add: nextUInt_def Let_def)

lemma inc_after_draws: "inc (after_draws k g) = inc g"
  by (induction k) (simp_all add: after_draws_Suc' inc_nextUInt)

lemma all_less_Suc_shift: "(\<forall>j<Suc k. P j) \<longleftrightarrow> P 0 \<and> (\<forall>j<k. P (Suc j))"
  by (metis less_Suc_eq_0_disj Suc_less_eq zero_less_Suc)

lemma loop_sound:
  assumes run: "nextUInt_loop bound t g = Some y" and nz: "bound \<noteq> 0"
  shows "\<exists>k. (\<forall>j<k. draw j g < t) \<and> t \<le> draw k g
           \<and> y = Inr (draw k g mod bound, after_draws (Suc k) g)"
proof -
  let ?P = "\<lambda>bound t g y. bound \<noteq> 0 \<longrightarrow>
      (\<exists>k. (\<forall>j<k. draw j g < t) \<and> t \<le> draw k g
           \<and> y = Inr (draw k g mod bound, after_draws (Suc k) g))"
  have "?P bound t g y"
  proof (rule nextUInt_loop.raw_induct [where P = ?P, OF _ run])
    fix loop :: "u32 \<Rightarrow> u32 \<Rightarrow> pcg32 \<Rightarrow> (fault + u32 \<times> pcg32) option"
      and bound t g y
    assume IH: "\<And>bound t g y. loop bound t g = Some y \<Longrightarrow> ?P bound t g y"
    assume body: "(case nextUInt g of (r, g') \<Rightarrow>
        if t \<le> r
        then (case umod32 r bound of Inl e \<Rightarrow> Some (Inl e) | Inr v \<Rightarrow> Some (Inr (v, g')))
        else loop bound t g') = Some y"
    obtain r g1 where ng: "nextUInt g = (r, g1)" by (cases "nextUInt g")
    show "?P bound t g y"
    proof
      assume nz: "bound \<noteq> 0"
      show "\<exists>k. (\<forall>j<k. draw j g < t) \<and> t \<le> draw k g
           \<and> y = Inr (draw k g mod bound, after_draws (Suc k) g)"
      proof (cases "t \<le> r")
        case True
        with body nz ng have "y = Inr (draw 0 g mod bound, after_draws (Suc 0) g)"
          by (auto simp add: umod32_def after_draws_Suc)
        with True ng show ?thesis
          by (intro exI [of _ 0]) simp
      next
        case False
        with body ng have "loop bound t g1 = Some y" by simp
        from IH [OF this] nz obtain k where
          k: "\<forall>j<k. draw j g1 < t" "t \<le> draw k g1"
            "y = Inr (draw k g1 mod bound, after_draws (Suc k) g1)"
          by blast
        with False ng show ?thesis
          by (intro exI [of _ "Suc k"])
            (simp add: all_less_Suc_shift draw_Suc after_draws_Suc [of "Suc k"])
      qed
    qed
  qed
  with nz show ?thesis by blast
qed

lemma loop_complete:
  assumes "bound \<noteq> 0" and "\<forall>j<k. draw j g < t" and "t \<le> draw k g"
  shows "nextUInt_loop bound t g = Some (Inr (draw k g mod bound, after_draws (Suc k) g))"
  using assms(2,3)
proof (induction k arbitrary: g)
  case 0
  obtain r g1 where ng: "nextUInt g = (r, g1)" by (cases "nextUInt g")
  with 0 assms(1) show ?case
    by (subst nextUInt_loop.simps) (simp add: umod32_def after_draws_Suc)
next
  case (Suc k)
  obtain r g1 where ng: "nextUInt g = (r, g1)" by (cases "nextUInt g")
  from Suc.prems ng have rej: "\<not> t \<le> r"
    and rest: "\<forall>j<k. draw j g1 < t" "t \<le> draw k g1"
    by (auto simp add: all_less_Suc_shift draw_Suc)
  have "nextUInt_loop bound t g = nextUInt_loop bound t g1"
    using rej ng by (subst nextUInt_loop.simps) simp
  also have "\<dots> = Some (Inr (draw k g1 mod bound, after_draws (Suc k) g1))"
    by (rule Suc.IH [OF rest])
  finally show ?case
    using ng by (simp add: draw_Suc after_draws_Suc [of "Suc k"])
qed


text \<open>
  C5. For every bound from 1 to \<open>2 ^ 32 - 1\<close>, the threshold \<^verbatim>\<open>-bound % bound\<close> of
  \<^verbatim>\<open>nextUInt(bound)\<close>, computed in 32-bit wrap-around arithmetic as
  \<open>(2 ^ 32 - bound) mod bound\<close>, is \<open>2 ^ 32 mod bound\<close>.
\<close>

theorem threshold_eq:
  assumes "bound \<noteq> 0"
  shows "\<exists>t. umod32 (- bound) bound = Inr t
           \<and> unat t = 2 ^ 32 mod unat bound
           \<and> unat t = (2 ^ 32 - unat bound) mod unat bound
           \<and> nextUInt_bounded bound g = nextUInt_loop bound t g"
proof -
  have le: "unat bound \<le> 2 ^ 32"
    using unsigned_less [of bound, where 'a = nat] by simp
  have "(2 ^ 32 - unat bound) mod unat bound = 2 ^ 32 mod unat bound"
    using le by (simp add: le_mod_geq [symmetric])
  with assms show ?thesis
    by (simp add: umod32_def nextUInt_bounded_def threshold_nat)
qed

theorem threshold_eq_witness:
  "(100 :: u32) \<noteq> 0 \<and> umod32 (- 100) 100 = Inr 96 \<and> (2 ^ 32 mod unat (100 :: u32) = 96)"
  using threshold_eq [of 100 pcg32_default] by (simp add: umod32_def)

text \<open>
  C3. For a bound greater than 0, \<^verbatim>\<open>nextUInt(bound)\<close> returns \<open>r\<close> exactly when some
  raw draw reaches the threshold, the raw draws before the first such draw having been
  thrown away, and \<open>r\<close> is that draw modulo the bound; a returned \<open>r\<close> is less than the
  bound.
\<close>

theorem nextUInt_bounded_rejection:
  assumes "bound \<noteq> 0"
  shows "(nextUInt_bounded bound g = Some (Inr (r, g')) \<longleftrightarrow>
           (\<exists>k. (\<forall>j<k. draw j g < (- bound) mod bound)
                \<and> (- bound) mod bound \<le> draw k g
                \<and> r = draw k g mod bound
                \<and> g' = after_draws (Suc k) g))
       \<and> (nextUInt_bounded bound g = Some (Inr (r, g')) \<longrightarrow> r < bound)"
proof -
  let ?t = "(- bound) mod bound"
  have unfold: "nextUInt_bounded bound g = nextUInt_loop bound ?t g"
    using assms by (simp add: nextUInt_bounded_def umod32_def)
  have lt: "x mod bound < bound" for x
    using assms by (simp add: word_mod_less_divisor word_greater_zero_iff)
  have fwd: "\<exists>k. (\<forall>j<k. draw j g < ?t) \<and> ?t \<le> draw k g \<and> r = draw k g mod bound
                \<and> g' = after_draws (Suc k) g"
    if "nextUInt_bounded bound g = Some (Inr (r, g'))"
    using loop_sound [OF that [unfolded unfold] assms] by auto
  have bwd: "nextUInt_bounded bound g = Some (Inr (r, g'))"
    if "\<exists>k. (\<forall>j<k. draw j g < ?t) \<and> ?t \<le> draw k g \<and> r = draw k g mod bound
                \<and> g' = after_draws (Suc k) g"
    using that loop_complete [OF assms, of _ g ?t] unfold by auto
  from fwd bwd lt show ?thesis by blast
qed

theorem nextUInt_bounded_rejection_witness:
  "(0x80000001 :: u32) \<noteq> 0
   \<and> nextUInt_bounded 0x80000001 pcg32_default
       = Some (Inr (0x4b07bbf2, \<lparr>state = 0xdbbe54146b3e7e04, inc = 0xda3e39cb94b95bdb\<rparr>))
   \<and> (0x4b07bbf2 :: u32) < 0x80000001"
proof -
  have nz: "(0x80000001 :: u32) \<noteq> 0" by simp
  have run: "nextUInt_bounded 0x80000001 pcg32_default
       = Some (Inr (0x4b07bbf2, \<lparr>state = 0xdbbe54146b3e7e04, inc = 0xda3e39cb94b95bdb\<rparr>))"
    by (simp add: nextUInt_bounded_def umod32_def nextUInt_loop.simps nextUInt_def
        pcg32_default_def pcg32_init_def)
  from nextUInt_bounded_rejection [OF nz, of pcg32_default "0x4b07bbf2"
      "\<lparr>state = 0xdbbe54146b3e7e04, inc = 0xda3e39cb94b95bdb\<rparr>"] run nz
  show ?thesis by blast
qed

lemma nextUInt_bounded_zero: "nextUInt_bounded 0 g = Some (Inl DivisionByZero)"
  by (simp add: nextUInt_bounded_def umod32_def)

lemma nextUInt_bounded_no_fault:
  assumes "bound \<noteq> 0"
  shows "nextUInt_bounded bound g \<noteq> Some (Inl e)"
proof
  assume "nextUInt_bounded bound g = Some (Inl e)"
  with assms have "nextUInt_loop bound ((- bound) mod bound) g = Some (Inl e)"
    by (simp add: nextUInt_bounded_def umod32_def)
  from loop_sound [OF this assms] show False by simp
qed

lemma nextUInt_bounded_result:
  assumes "nextUInt_bounded bound g = Some (Inr (r, g'))"
  shows "bound \<noteq> 0 \<and> r < bound \<and> (\<exists>k. g' = after_draws (Suc k) g)"
proof -
  have nz: "bound \<noteq> 0"
    using assms by (auto simp add: nextUInt_bounded_zero)
  with assms have "nextUInt_loop bound ((- bound) mod bound) g = Some (Inr (r, g'))"
    by (simp add: nextUInt_bounded_def umod32_def)
  from loop_sound [OF this nz] obtain k where
    "r = draw k g mod bound" "g' = after_draws (Suc k) g"
    by auto
  moreover have "draw k g mod bound < bound"
    using nz by (simp add: word_mod_less_divisor word_greater_zero_iff)
  ultimately show ?thesis using nz by blast
qed

text \<open>
  C9. \<^verbatim>\<open>nextUInt(0)\<close> divides by zero: the run is a fault and returns no value. With a
  bound greater than 0 neither of the two \<^verbatim>\<open>%\<close> of \<^verbatim>\<open>nextUInt(bound)\<close> can divide by zero,
  so no run of it faults.
\<close>

theorem nextUInt_bounded_faults:
  "nextUInt_bounded 0 g = Some (Inl DivisionByZero)
   \<and> (\<forall>r g'. nextUInt_bounded 0 g \<noteq> Some (Inr (r, g')))
   \<and> (bound \<noteq> 0 \<longrightarrow>
        (\<forall>e. nextUInt_bounded bound g \<noteq> Some (Inl e)) \<and> (\<forall>a e. umod32 a bound \<noteq> Inl e))"
  using nextUInt_bounded_no_fault [of bound g]
  by (simp add: nextUInt_bounded_zero umod32_def)

theorem nextUInt_bounded_faults_witness:
  "(100 :: u32) \<noteq> 0
   \<and> nextUInt_bounded 0 pcg32_default = Some (Inl DivisionByZero)
   \<and> nextUInt_bounded 100 pcg32_default \<noteq> Some (Inl DivisionByZero)
   \<and> umod32 4294967196 100 \<noteq> Inl DivisionByZero"
  using nextUInt_bounded_faults [of pcg32_default 100] by simp



section \<open>Jumping ahead and back\<close>

lemma lcg_twice_apply: "lcg (m * m) ((m + 1) * p) s = lcg m p (lcg m p s)"
  by (simp add: lcg_def algebra_simps)

lemma lcg_twice_funpow: "lcg (m * m) ((m + 1) * p) ^^ k = lcg m p ^^ (2 * k)"
proof -
  have "lcg (m * m) ((m + 1) * p) = lcg m p ^^ 2"
    by (rule ext) (simp add: lcg_twice_apply numeral_2_eq_2)
  then show ?thesis by (simp add: funpow_mult)
qed

lemma odd_word_test: "(delta AND 1 \<noteq> 0) \<longleftrightarrow> odd (unat delta)" for delta :: u64
proof -
  have "delta AND 1 \<noteq> 0 \<longleftrightarrow> odd delta"
    by (simp add: and_one_eq even_iff_mod_2_eq_zero)
  also have "\<dots> \<longleftrightarrow> bit delta 0" by (simp add: bit_0)
  also have "\<dots> \<longleftrightarrow> odd (unat delta)" by (simp add: odd_unat_iff)
  finally show ?thesis .
qed

lemma unat_half: "unat (delta div 2) = unat delta div 2" for delta :: u64
  by (simp add: unat_div)

lemma mult_base: "(4 :: u64) dvd 6364136223846793005 - 1"
proof
  show "(6364136223846793005 :: u64) - 1 = 4 * 1591034055961698251" by simp
qed

lemma pcg_advance_loop_correct:
  "pcg_advance_loop delta cm cp am ap = (am', ap') \<Longrightarrow>
     am' * s + ap' = (lcg cm cp ^^ unat delta) (am * s + ap)"
proof (induction delta cm cp am ap rule: pcg_advance_loop.induct)
  case (1 delta cm cp am ap)
  show ?case
  proof (cases "0 < delta")
    case False
    then have "delta = 0" by (simp add: word_greater_zero_iff)
    with "1.prems" show ?thesis
      by (simp add: pcg_advance_loop.simps)
  next
    case pos: True
    show ?thesis
    proof (cases "odd (unat delta)")
      case True
      then have test: "delta AND 1 \<noteq> 0" by (simp add: odd_word_test)
      from "1.prems" pos test
      have run: "pcg_advance_loop (delta div 2) (cm * cm) ((cm + 1) * cp)
            (am * cm) (ap * cm + cp) = (am', ap')"
        by (subst (asm) pcg_advance_loop.simps) simp
      have arg: "am * cm * s + (ap * cm + cp) = lcg cm cp (am * s + ap)"
        by (simp add: lcg_def algebra_simps)
      have "am' * s + ap'
          = (lcg (cm * cm) ((cm + 1) * cp) ^^ unat (delta div 2)) (am * cm * s + (ap * cm + cp))"
        using "1.IH" [OF pos _ _ run, of "(am * cm, ap * cm + cp)"] test by simp
      also have "\<dots> = (lcg cm cp ^^ (2 * (unat delta div 2))) (lcg cm cp (am * s + ap))"
        by (simp only: lcg_twice_funpow unat_half arg)
      also have "\<dots> = (lcg cm cp ^^ Suc (2 * (unat delta div 2))) (am * s + ap)"
        by (simp only: funpow_Suc_right o_apply)
      also have "Suc (2 * (unat delta div 2)) = unat delta"
        using True by simp
      finally show ?thesis .
    next
      case False
      then have test: "\<not> delta AND 1 \<noteq> 0" by (simp add: odd_word_test)
      from "1.prems" pos test
      have run: "pcg_advance_loop (delta div 2) (cm * cm) ((cm + 1) * cp) am ap = (am', ap')"
        by (subst (asm) pcg_advance_loop.simps) simp
      have "am' * s + ap'
          = (lcg (cm * cm) ((cm + 1) * cp) ^^ unat (delta div 2)) (am * s + ap)"
        using "1.IH" [OF pos _ _ run, of "(am, ap)"] test by simp
      also have "\<dots> = (lcg cm cp ^^ (2 * (unat delta div 2))) (am * s + ap)"
        by (simp add: lcg_twice_funpow unat_half)
      also have "2 * (unat delta div 2) = unat delta"
        using False by simp
      finally show ?thesis .
    qed
  qed
qed


lemma nextUInt_state: "snd (nextUInt g) = g\<lparr>state := lcg 6364136223846793005 (inc g) (state g)\<rparr>"
  by (simp add: nextUInt_def Let_def lcg_def)

lemma after_draws_lcg:
  "after_draws k g = g\<lparr>state := (lcg 6364136223846793005 (inc g) ^^ k) (state g)\<rparr>"
proof (induction k)
  case 0
  show ?case by simp
next
  case (Suc k)
  show ?case
    by (simp add: after_draws_Suc' Suc.IH nextUInt_state)
qed

lemma advance_lcg:
  "advance delta g = g\<lparr>state := (lcg 6364136223846793005 (inc g) ^^ unat delta) (state g)\<rparr>"
proof -
  obtain am ap where
    run: "pcg_advance_loop delta 6364136223846793005 (inc g) 1 0 = (am, ap)"
    by (cases "pcg_advance_loop delta 6364136223846793005 (inc g) 1 0")
  from pcg_advance_loop_correct [OF run, of "state g"]
  have "am * state g + ap = (lcg 6364136223846793005 (inc g) ^^ unat delta) (state g)"
    by simp
  with run show ?thesis
    by (simp add: advance_def pcg_advance_lcg_64_def)
qed

lemma advance_after_draws: "advance delta g = after_draws (unat delta) g"
  by (simp add: advance_lcg after_draws_lcg)

lemma after_draws_add: "after_draws j (after_draws k g) = after_draws (j + k) g"
  by (simp add: after_draws_def funpow_add)

text \<open>The period: \<open>2 ^ 64\<close> steps of the generator are the identity, whatever the increment.\<close>

lemma lcg_pow2:
  "lcg m p ^^ (2 ^ k) = lcg (fst ((lcg_twice ^^ k) (m, p))) (snd ((lcg_twice ^^ k) (m, p)))"
proof (induction k arbitrary: m p)
  case 0
  show ?case by simp
next
  case (Suc k)
  have "lcg m p ^^ (2 ^ Suc k) = lcg (m * m) ((m + 1) * p) ^^ (2 ^ k)"
    by (simp add: lcg_twice_funpow)
  also have "\<dots> = lcg (fst ((lcg_twice ^^ k) (m * m, (m + 1) * p)))
      (snd ((lcg_twice ^^ k) (m * m, (m + 1) * p)))"
    by (rule Suc.IH)
  also have "(lcg_twice ^^ k) (m * m, (m + 1) * p) = (lcg_twice ^^ Suc k) (m, p)"
    by (simp add: funpow_swap1 lcg_twice_def)
  finally show ?case .
qed

lemma lcg_twice_dvd:
  assumes "4 dvd m - 1"
  shows "2 ^ (k + 2) dvd fst ((lcg_twice ^^ k) (m, p)) - 1 \<and> 2 ^ k dvd snd ((lcg_twice ^^ k) (m, p))"
proof (induction k)
  case 0
  from assms show ?case by simp
next
  case (Suc k)
  obtain a b where ab: "(lcg_twice ^^ k) (m, p) = (a, b)"
    by (cases "(lcg_twice ^^ k) (m, p)")
  with Suc.IH have a: "2 ^ (k + 2) dvd a - 1" and b: "2 ^ k dvd b" by simp_all
  have "2 dvd (2 :: u64) ^ (k + 2)" by simp
  from this a have "2 dvd a - 1" by (rule dvd_trans)
  then have two: "2 dvd a + 1"
  proof -
    have "a + 1 = (a - 1) + 2" by simp
    with \<open>2 dvd a - 1\<close> show ?thesis by (simp only: dvd_add_triv_right_iff)
  qed
  have "a * a - 1 = (a - 1) * (a + 1)" by (simp add: algebra_simps)
  moreover have "2 ^ (k + 2) * 2 dvd (a - 1) * (a + 1)"
    using a two by (rule mult_dvd_mono)
  ultimately have "2 ^ (Suc k + 2) dvd a * a - 1" by (simp add: mult.commute)
  moreover have "2 ^ Suc k dvd (a + 1) * b"
    using mult_dvd_mono [OF two b] by simp
  moreover have "(lcg_twice ^^ Suc k) (m, p) = (a * a, (a + 1) * b)"
    unfolding funpow.simps o_apply ab by (simp add: lcg_twice_def)
  ultimately show ?case by (simp only: fst_conv snd_conv)
qed

lemma lcg_period: "lcg 6364136223846793005 p ^^ (2 ^ 64) = id"
proof -
  define X where "X = (lcg_twice ^^ 64) (6364136223846793005, p)"
  have z: "(2 :: u64) ^ (64 + 2) = 0" "(2 :: u64) ^ 64 = 0" by simp_all
  have "2 ^ (64 + 2) dvd fst X - 1 \<and> 2 ^ 64 dvd snd X"
    unfolding X_def by (rule lcg_twice_dvd [OF mult_base])
  then have "0 dvd fst X - 1" and "0 dvd snd X"
    unfolding z by blast+
  then have X: "fst X = 1" "snd X = 0" by simp_all
  have "lcg 6364136223846793005 p ^^ (2 ^ 64) = lcg (fst X) (snd X)"
    unfolding X_def by (rule lcg_pow2)
  also have "\<dots> = id"
    unfolding X by (rule ext) (simp add: lcg_def)
  finally show ?thesis .
qed

lemma after_draws_period: "after_draws (2 ^ 64) g = g"
  unfolding after_draws_lcg lcg_period by simp


lemma unat_neg_u64:
  assumes "n \<noteq> (0 :: u64)"
  shows "unat (- n) = 2 ^ 64 - unat n"
proof -
  have "0 < unat n" using assms by (simp add: unat_gt_0)
  then have "unat (0 - n) = 2 ^ 64 - unat n"
    using unat_sub_if_size [of 0 n] by (simp add: word_size)
  then show ?thesis by simp
qed

lemma unat_nonneg_sint:
  fixes n :: i64
  assumes "0 \<le> sint n"
  shows "unat n = nat (sint n)"
proof -
  have "sint n < 2 ^ (LENGTH(64) - 1)" by (rule sint_lt)
  then have "sint n < 2 ^ 64" by simp
  with assms have "take_bit 64 (sint n) = sint n" by (simp add: take_bit_int_eq_self)
  then have "uint n = sint n" using uint_sint [of n] by simp
  then show ?thesis by (simp only: unat_eq_nat_uint)
qed

text \<open>
  C2. For a delta that is not negative, \<^verbatim>\<open>advance(n)\<close> leaves the generator that \<open>n\<close>
  calls of \<^verbatim>\<open>nextUInt\<close> leave, the state being the single-step transition applied \<open>n\<close>
  times; the call of \<^verbatim>\<open>nextUInt\<close> after \<^verbatim>\<open>advance(n)\<close> returns what call number \<open>n + 1\<close>
  from the original generator returns.
\<close>

theorem advance_forward:
  assumes "0 \<le> sint n"
  shows "advance n g = after_draws (nat (sint n)) g
       \<and> state (advance n g)
           = ((\<lambda>s. s * 6364136223846793005 + inc g) ^^ nat (sint n)) (state g)
       \<and> fst (nextUInt (advance n g)) = draw (nat (sint n)) g"
proof -
  have n: "unat n = nat (sint n)" using assms by (rule unat_nonneg_sint)
  have "lcg 6364136223846793005 (inc g) = (\<lambda>s. s * 6364136223846793005 + inc g)"
    by (rule ext) (simp add: lcg_def)
  then show ?thesis
    by (simp add: advance_after_draws n draw_def after_draws_lcg)
qed

theorem advance_forward_witness:
  "0 \<le> sint (5 :: i64)
   \<and> advance 5 pcg32_default = after_draws 5 pcg32_default
   \<and> state (advance 5 pcg32_default) = 6387636992558795774
   \<and> fst (nextUInt (advance 5 pcg32_default)) = draw 5 pcg32_default"
proof -
  have "state (advance 5 pcg32_default) = 6387636992558795774"
    by (simp add: advance_def pcg_advance_lcg_64_def pcg_advance_loop.simps
        pcg32_default_def pcg32_init_def)
  with advance_forward [of 5 pcg32_default] show ?thesis by (simp add: draw_def)
qed

text \<open>
  C6. For every signed 64-bit \<open>n\<close>, \<^verbatim>\<open>advance(n)\<close> followed by \<^verbatim>\<open>advance(-n)\<close> gives the
  generator back, state and increment. The jump back by a positive \<open>n\<close> is the jump
  forward by \<open>2 ^ 64 - n\<close> steps, the value of \<open>-n\<close> read as unsigned.
\<close>

theorem advance_inverse:
  "advance (- n) (advance n g) = g
   \<and> (0 < sint n \<longrightarrow> unat (- n) = 2 ^ 64 - nat (sint n)
        \<and> advance (- n) g = after_draws (2 ^ 64 - nat (sint n)) g)"
proof -
  have inv: "advance (- n) (advance n g) = g"
  proof (cases "n = 0")
    case True
    then show ?thesis by (simp add: advance_after_draws)
  next
    case False
    have "unat n < 2 ^ LENGTH(64)" by (rule unsigned_less)
    then have "unat n \<le> 2 ^ 64" by simp
    then have "unat (- n) + unat n = 2 ^ 64"
      by (simp add: unat_neg_u64 [OF False])
    then show ?thesis
      by (simp only: advance_after_draws after_draws_add after_draws_period)
  qed
  have "unat (- n) = 2 ^ 64 - nat (sint n)" if "0 < sint n"
  proof -
    from that have "n \<noteq> 0" by auto
    moreover from that have "unat n = nat (sint n)" by (simp add: unat_nonneg_sint)
    ultimately show ?thesis by (simp add: unat_neg_u64)
  qed
  with inv show ?thesis
    by (simp add: advance_after_draws)
qed

theorem advance_inverse_witness:
  "advance (- 5) (advance 5 pcg32_default) = pcg32_default
   \<and> 0 < sint (5 :: i64)
   \<and> advance (- 5) pcg32_default = after_draws (2 ^ 64 - 5) pcg32_default"
  using advance_inverse [of 5 pcg32_default] by simp

section \<open>Floating-point draws\<close>

lemma bit_length_bound: "n < 2 ^ k \<Longrightarrow> bit_length n \<le> k"
proof (induction k arbitrary: n)
  case 0
  then show ?case by (simp add: bit_length.simps)
next
  case (Suc k)
  show ?case
  proof (cases "n = 0")
    case True
    then show ?thesis by (simp add: bit_length.simps)
  next
    case False
    from Suc.prems have "n div 2 < 2 ^ k" by simp
    then have "bit_length (n div 2) \<le> k" by (rule Suc.IH)
    with False show ?thesis by (subst bit_length.simps) simp
  qed
qed

lemma less_bit_length: "n < 2 ^ bit_length n"
proof (induction n rule: bit_length.induct)
  case (1 n)
  show ?case
  proof (cases "n = 0")
    case True
    then show ?thesis by simp
  next
    case False
    with 1 have "n div 2 < 2 ^ bit_length (n div 2)" by simp
    then have "n < 2 * 2 ^ bit_length (n div 2)" by simp
    with False show ?thesis by (subst bit_length.simps) simp
  qed
qed

lemma double_of_u32_exact: "double_of_u32 r = of_nat (unat r)"
proof -
  have "unat r < 2 ^ LENGTH(32)" by (rule unsigned_less)
  then have "unat r < 2 ^ 53"
    by (rule less_le_trans) simp
  then have "bit_length (unat r) \<le> 53" by (rule bit_length_bound)
  then show ?thesis by (simp add: double_of_u32_def round_to_prec_def)
qed

lemma nextDouble_range: "0 \<le> fst (nextDouble g) \<and> fst (nextDouble g) < 1"
proof -
  obtain r g' where ng: "nextUInt g = (r, g')" by (cases "nextUInt g")
  have "unat r < 2 ^ LENGTH(32)" by (rule unsigned_less)
  then have "(of_nat (unat r) :: rat) < of_nat (2 ^ 32)"
    unfolding of_nat_less_iff by simp
  then have "(of_nat (unat r) :: rat) / 2 ^ 32 < 1" by simp
  moreover have "(0 :: rat) \<le> of_nat (unat r) / 2 ^ 32"
    by (rule divide_nonneg_pos) (simp_all del: of_nat_unat)
  ultimately show ?thesis
    by (simp add: nextDouble_def ng ldexp_def double_of_u32_exact del: of_nat_unat)
qed

lemma round_to_prec_le:
  assumes "n < 2 ^ k" and "p \<le> k"
  shows "round_to_prec p n \<le> 2 ^ k"
proof (cases "bit_length n \<le> p")
  case True
  with assms show ?thesis by (simp add: round_to_prec_def)
next
  case False
  define e where "e = bit_length n - p"
  define q where "q = n div 2 ^ e"
  have bl: "bit_length n = p + e" using False by (simp add: e_def)
  have "n < 2 ^ (p + e)" using less_bit_length [of n] by (simp add: bl)
  then have "n < 2 ^ p * 2 ^ e" by (simp add: power_add)
  then have "q < 2 ^ p" unfolding q_def by (simp add: less_mult_imp_div_less)
  then have "(q + 1) * 2 ^ e \<le> 2 ^ p * 2 ^ e" by (intro mult_right_mono) simp_all
  also have "\<dots> = 2 ^ bit_length n" by (simp add: bl power_add)
  also have "\<dots> \<le> 2 ^ k"
    using bit_length_bound [OF assms(1)] by (intro power_increasing) simp_all
  finally have up: "(q + 1) * 2 ^ e \<le> 2 ^ k" .
  have "q * 2 ^ e \<le> (q + 1) * 2 ^ e" by simp
  from this up have "q * 2 ^ e \<le> 2 ^ k" by (rule order_trans)
  with up False show ?thesis
    by (simp add: round_to_prec_def Let_def e_def [symmetric] q_def [symmetric] del: mult_Suc)
qed

lemma nextFloat_range: "0 \<le> fst (nextFloat g) \<and> fst (nextFloat g) \<le> 1"
proof -
  obtain r g' where ng: "nextUInt g = (r, g')" by (cases "nextUInt g")
  have "unat r < 2 ^ LENGTH(32)" by (rule unsigned_less)
  then have "unat r < 2 ^ 32" by simp
  then have "round_to_prec 24 (unat r) \<le> 2 ^ 32" by (rule round_to_prec_le) simp
  then have "(of_nat (round_to_prec 24 (unat r)) :: rat) \<le> of_nat (2 ^ 32)"
    unfolding of_nat_le_iff .
  then have "(of_nat (round_to_prec 24 (unat r)) :: rat) / 2 ^ 32 \<le> 1" by simp
  moreover have "(0 :: rat) \<le> of_nat (round_to_prec 24 (unat r)) / 2 ^ 32"
    by (rule divide_nonneg_pos) simp_all
  ultimately show ?thesis
    by (simp add: nextFloat_def ng ldexp_def float_of_u32_def)
qed

text \<open>
  C7. \<^verbatim>\<open>nextFloat()\<close> and \<^verbatim>\<open>nextDouble()\<close> are documented to return a value in \<open>[0, 1)\<close>.
  On the state below the raw draw is \<open>2 ^ 32 - 1\<close>, which the cast to \<^verbatim>\<open>float\<close> rounds to
  \<open>2 ^ 32\<close>, and \<^verbatim>\<open>nextFloat()\<close> returns 1.
\<close>

theorem nextFloat_returns_one:
  "fst (nextUInt \<lparr>state = 0x07FFFE0000000000, inc = 0xda3e39cb94b95bdb\<rparr>) = 0xFFFFFFFF
   \<and> float_of_u32 0xFFFFFFFF = 4294967296
   \<and> fst (nextFloat \<lparr>state = 0x07FFFE0000000000, inc = 0xda3e39cb94b95bdb\<rparr>) = 1"
proof -
  have draw: "fst (nextUInt \<lparr>state = 0x07FFFE0000000000, inc = 0xda3e39cb94b95bdb\<rparr>) = 0xFFFFFFFF"
    by (simp add: nextUInt_def)
  have bl: "bit_length 4294967295 = 32"
    by (simp add: bit_length.simps)
  have cast: "float_of_u32 0xFFFFFFFF = 4294967296"
    by (simp add: float_of_u32_def round_to_prec_def bl)
  obtain g' where "nextUInt \<lparr>state = 0x07FFFE0000000000, inc = 0xda3e39cb94b95bdb\<rparr>
      = (0xFFFFFFFF, g')"
    using draw by (cases "nextUInt \<lparr>state = 0x07FFFE0000000000, inc = 0xda3e39cb94b95bdb\<rparr>") simp
  with draw cast show ?thesis
    by (simp add: nextFloat_def ldexp_def)
qed

section \<open>The full period, and the bounded draw with an odd increment\<close>













section \<open>Shuffling\<close>

lemma shuffle_loop_step:
  "begin_it < it \<Longrightarrow> shuffle_loop begin_it it xs g =
     (case nextUInt_bounded (ucast (it - begin_it + 1)) g of
        None \<Rightarrow> None
      | Some (Inl e) \<Rightarrow> Some (Inl e)
      | Some (Inr (j, g')) \<Rightarrow>
          shuffle_loop begin_it (it - 1) (iter_swap (unat (it - begin_it)) (unat j) xs) g')"
  by (subst shuffle_loop.simps) simp

lemma shuffle_loop_done: "\<not> begin_it < it \<Longrightarrow> shuffle_loop begin_it it xs g = Some (Inr (xs, g))"
  by (subst shuffle_loop.simps) simp

lemma shuffle_loop_inc:
  "shuffle_loop begin_it it xs g = Some (Inr (ys, g')) \<Longrightarrow> inc g' = inc g"
proof (induction begin_it it xs g rule: shuffle_loop.induct)
  case (1 begin_it it xs g)
  show ?case
  proof (cases "begin_it < it")
    case False
    with "1.prems" show ?thesis by (simp add: shuffle_loop_done)
  next
    case True
    from "1.prems" True obtain j g1 where
      draw: "nextUInt_bounded (ucast (it - begin_it + 1)) g = Some (Inr (j, g1))"
      and rest: "shuffle_loop begin_it (it - 1) (iter_swap (unat (it - begin_it)) (unat j) xs) g1
          = Some (Inr (ys, g'))"
      by (auto simp add: shuffle_loop_step split: option.splits sum.splits)
    from nextUInt_bounded_result [OF draw] have "inc g1 = inc g"
      by (auto simp add: inc_after_draws)
    with "1.IH" [OF True draw refl refl rest] show ?thesis by simp
  qed
qed


lemma length_iter_swap [simp]: "length (iter_swap i j xs) = length xs"
  by (simp add: iter_swap_def)














text \<open>
  An empty range at an address other than 0: \<^verbatim>\<open>end - 1\<close> is below \<^verbatim>\<open>begin\<close> and the
  loop is not entered.
\<close>

lemma shuffle_empty_not_null: "begin_it \<noteq> 0 \<Longrightarrow> shuffle begin_it [] g = Some (Inr ([], g))"
proof -
  assume "begin_it \<noteq> 0"
  then have "unat (begin_it - 1) < unat begin_it"
    by (simp add: unat_minus_one unat_gt_0)
  then have "\<not> begin_it < begin_it - 1" by (simp add: word_less_nat_alt)
  then show ?thesis by (simp add: shuffle_def shuffle_loop_done)
qed





section \<open>The increment is a constant of every operation but seeding\<close>

text \<open>
  C10. \<^verbatim>\<open>nextUInt()\<close>, \<^verbatim>\<open>nextUInt(bound)\<close>, \<^verbatim>\<open>nextFloat()\<close>, \<^verbatim>\<open>nextDouble()\<close>, \<^verbatim>\<open>advance\<close> and
  \<^verbatim>\<open>shuffle\<close> leave the increment as it was; an odd increment therefore stays odd across
  each of them.
\<close>

theorem inc_unchanged:
  "inc (snd (nextUInt g)) = inc g
   \<and> (nextUInt_bounded bound g = Some (Inr (r, g1)) \<longrightarrow> inc g1 = inc g)
   \<and> inc (snd (nextFloat g)) = inc g
   \<and> inc (snd (nextDouble g)) = inc g
   \<and> inc (advance delta g) = inc g
   \<and> (shuffle begin_it xs g = Some (Inr (ys, g2)) \<longrightarrow> inc g2 = inc g)
   \<and> (odd (unat (inc g)) \<longrightarrow>
        odd (unat (inc (snd (nextUInt g))))
        \<and> (nextUInt_bounded bound g = Some (Inr (r, g1)) \<longrightarrow> odd (unat (inc g1)))
        \<and> odd (unat (inc (snd (nextFloat g))))
        \<and> odd (unat (inc (snd (nextDouble g))))
        \<and> odd (unat (inc (advance delta g)))
        \<and> (shuffle begin_it xs g = Some (Inr (ys, g2)) \<longrightarrow> odd (unat (inc g2))))"
proof -
  have raw: "inc (snd (nextUInt g)) = inc g" by (rule inc_nextUInt)
  have bounded: "inc g1 = inc g" if "nextUInt_bounded bound g = Some (Inr (r, g1))"
    using nextUInt_bounded_result [OF that] by (auto simp add: inc_after_draws)
  have flt: "inc (snd (nextFloat g)) = inc g"
    using raw by (cases "nextUInt g") (simp add: nextFloat_def)
  have dbl: "inc (snd (nextDouble g)) = inc g"
    using raw by (cases "nextUInt g") (simp add: nextDouble_def)
  have adv: "inc (advance delta g) = inc g" by (simp add: advance_def)
  have shf: "inc g2 = inc g" if "shuffle begin_it xs g = Some (Inr (ys, g2))"
    using that unfolding shuffle_def by (rule shuffle_loop_inc)
  from raw bounded flt dbl adv shf show ?thesis by simp
qed

theorem inc_unchanged_witness:
  "nextUInt_bounded 100 pcg32_default
     = Some (Inr (13, \<lparr>state = 0xc83015ca079f7e1a, inc = 0xda3e39cb94b95bdb\<rparr>))
   \<and> shuffle 4096 [1, 2, 3 :: nat] pcg32_default
     = Some (Inr ([1, 3, 2], \<lparr>state = 13821270098544127085, inc = 15726070495360670683\<rparr>))
   \<and> odd (unat (inc pcg32_default))
   \<and> inc (snd (nextUInt pcg32_default)) = 0xda3e39cb94b95bdb
   \<and> inc (advance 1000 pcg32_default) = 0xda3e39cb94b95bdb
   \<and> odd (unat (inc (advance 1000 pcg32_default)))"
proof -
  have b: "nextUInt_bounded 100 pcg32_default
     = Some (Inr (13, \<lparr>state = 0xc83015ca079f7e1a, inc = 0xda3e39cb94b95bdb\<rparr>))"
    by (simp add: nextUInt_bounded_def umod32_def nextUInt_loop.simps nextUInt_def
        pcg32_default_def pcg32_init_def)
  have s: "shuffle 4096 [1, 2, 3 :: nat] pcg32_default
     = Some (Inr ([1, 3, 2], \<lparr>state = 13821270098544127085, inc = 15726070495360670683\<rparr>))"
    by (simp add: shuffle_def shuffle_loop.simps nextUInt_bounded_def umod32_def
        nextUInt_loop.simps nextUInt_def pcg32_default_def pcg32_init_def iter_swap_def)
  have i: "inc pcg32_default = 0xda3e39cb94b95bdb"
    by (simp add: pcg32_default_def pcg32_init_def)
  have o: "odd (unat (inc pcg32_default))"
    unfolding i by simp
  from inc_unchanged [of pcg32_default 100 13
      "\<lparr>state = 0xc83015ca079f7e1a, inc = 0xda3e39cb94b95bdb\<rparr>" 1000 4096 "[1, 2, 3 :: nat]"
      "[1, 3, 2]" "\<lparr>state = 13821270098544127085, inc = 15726070495360670683\<rparr>"] b s i o
  show ?thesis by simp
qed

end
